theory Spec2Isabelle
  imports Main "HOL-Library.Word" "HOL-Library.Signed_Division" "HOL-Library.Sublist"
begin

section \<open>The upload load generator of \<^verbatim>\<open>main.go\<close>\<close>

text \<open>
  The program samples the memory of a container, loads a corpus of images from a folder,
  posts \<^verbatim>\<open>totalRequests\<close> multipart uploads with at most \<^verbatim>\<open>concurrentRequests\<close>
  goroutines holding a slot of a buffered channel, waits on a \<^verbatim>\<open>sync.WaitGroup\<close>,
  samples the memory again and prints a report.

  Everything outside the process (the Docker daemon, the file system, the HTTP server)
  is an explicit environment value. Go's \<^verbatim>\<open>int\<close> is HOL's \<open>int\<close> (the program computes
  with it only by counting up from 0 to \<^verbatim>\<open>totalRequests\<close>), \<^verbatim>\<open>uint64\<close> is \<open>64 word\<close>, and
  \<^verbatim>\<open>time.Duration\<close> (an \<^verbatim>\<open>int64\<close> of nanoseconds) is \<open>64 word\<close> read with \<open>sint\<close>.
  Console output and elapsed wall-clock time are not part of the model.
\<close>

subsection \<open>Values and errors\<close>

type_synonym byte = "8 word"
type_synonym uint64 = "64 word"
type_synonym Duration = "64 word"

datatype error =
    ErrCreatingDockerClient
  | ErrGettingContainerStats
  | ErrParsingContainerStats
  | ErrReadingDirectory
  | ErrNoValidImages
  | ErrReadFile
  | ErrTransport

subsection \<open>\<^verbatim>\<open>RequestStats\<close>\<close>

text \<open>
  The \<^verbatim>\<open>mutex\<close> field makes each of the two methods one indivisible update of the
  record; the model has the three counters and treats each method as one step.
\<close>

record RequestStats =
  successCount :: int
  failureCount :: int
  totalTime :: Duration

definition newRequestStats :: RequestStats where
  "newRequestStats = \<lparr>successCount = 0, failureCount = 0, totalTime = 0\<rparr>"

definition addSuccess :: "Duration \<Rightarrow> RequestStats \<Rightarrow> RequestStats" where
  "addSuccess d st = st\<lparr>successCount := successCount st + 1, totalTime := totalTime st + d\<rparr>"

definition addFailure :: "RequestStats \<Rightarrow> RequestStats" where
  "addFailure st = st\<lparr>failureCount := failureCount st + 1\<rparr>"

subsection \<open>\<^verbatim>\<open>getContainerMemoryUsage\<close>\<close>

text \<open>What the Docker daemon answers to one call: the three calls that can fail, and the
  \<^verbatim>\<open>MemoryStats.Usage\<close> field of the decoded reply.\<close>

record docker_reply =
  newClient_err :: bool
  containerStats_err :: bool
  fromJSON_err :: bool
  memoryUsage :: uint64

definition getContainerMemoryUsage :: "docker_reply \<Rightarrow> error + uint64" where
  "getContainerMemoryUsage d =
     (if newClient_err d then Inl ErrCreatingDockerClient
      else if containerStats_err d then Inl ErrGettingContainerStats
      else if fromJSON_err d then Inl ErrParsingContainerStats
      else Inr (memoryUsage d))"

subsection \<open>\<^verbatim>\<open>makeRequest\<close>\<close>

text \<open>What the libraries and the server answer to one request: whether
  \<^verbatim>\<open>CreateFormFile\<close>, \<^verbatim>\<open>part.Write\<close> and \<^verbatim>\<open>http.NewRequest\<close> fail, what
  \<^verbatim>\<open>client.Do\<close> returns (an error, which includes the 30 second timeout, or a response
  with its \<^verbatim>\<open>StatusCode\<close>), and the value of \<^verbatim>\<open>time.Since(startTime)\<close>.\<close>

record request_env =
  createFormFile_err :: bool
  write_err :: bool
  newRequest_err :: bool
  do_result :: "error + int"
  duration :: Duration

definition StatusOK :: int where
  "StatusOK = 200"

text \<open>The body of \<^verbatim>\<open>makeRequest\<close>, lines 63 to 125: its effect on the shared statistics.\<close>

definition makeRequest_body :: "request_env \<Rightarrow> RequestStats \<Rightarrow> RequestStats" where
  "makeRequest_body env st =
     (if createFormFile_err env then addFailure st
      else if write_err env then addFailure st
      else if newRequest_err env then addFailure st
      else (case do_result env of
              Inl err \<Rightarrow> addFailure st
            | Inr statusCode \<Rightarrow>
                if statusCode = StatusOK then addSuccess (duration env) st
                else addFailure st))"

text \<open>\<^verbatim>\<open>wg.Done()\<close>, deferred at line 61, runs when the body has returned.\<close>

definition wg_Done :: "int \<Rightarrow> int" where
  "wg_Done n = n - 1"

definition makeRequest :: "request_env \<Rightarrow> RequestStats \<times> int \<Rightarrow> RequestStats \<times> int" where
  "makeRequest env = (\<lambda>(st, n). (makeRequest_body env st, wg_Done n))"

subsection \<open>\<^verbatim>\<open>loadImagesFromFolder\<close>\<close>

text \<open>
  A directory entry as \<^verbatim>\<open>os.ReadDir\<close> returns it: its name and its type bits
  (\<^verbatim>\<open>fs.FileMode\<close> masked by \<^verbatim>\<open>ModeType\<close>). \<^verbatim>\<open>IsDir()\<close> is true for a directory only;
  a symbolic link, also one to a directory, has the type of a link.
\<close>

datatype FileType = Regular | Directory | Symlink | NamedPipe | Socket | Device | Irregular

record DirEntry =
  Name :: string
  Type :: FileType

definition IsDir :: "DirEntry \<Rightarrow> bool" where
  "IsDir e = (Type e = Directory)"

definition IsRegular :: "DirEntry \<Rightarrow> bool" where
  "IsRegular e = (Type e = Regular)"

text \<open>The file system: what \<^verbatim>\<open>os.ReadDir\<close> and \<^verbatim>\<open>os.ReadFile\<close> return for a path, and
  \<^verbatim>\<open>filepath.Join\<close> of a folder and a name.\<close>

record filesystem =
  ReadDir :: "string \<Rightarrow> error + DirEntry list"
  ReadFile :: "string \<Rightarrow> error + byte list"
  Join :: "string \<Rightarrow> string \<Rightarrow> string"

text \<open>\<^verbatim>\<open>filepath.Ext\<close>: the suffix from the last dot of the last path element, empty when
  that element has no dot. The scan runs from the end of the path and stops at a separator.\<close>

fun Ext_scan :: "string \<Rightarrow> string \<Rightarrow> string" where
  "Ext_scan [] seen = []"
| "Ext_scan (c # cs) seen =
     (if c = CHR ''/'' then []
      else if c = CHR ''.'' then c # seen
      else Ext_scan cs (c # seen))"

definition Ext :: "string \<Rightarrow> string" where
  "Ext path = Ext_scan (rev path) []"

text \<open>The loop of lines 137 to 156 over the entries, with the two slices it appends to.\<close>

fun load_loop ::
  "filesystem \<Rightarrow> string \<Rightarrow> DirEntry list \<Rightarrow> byte list list \<times> string list
     \<Rightarrow> byte list list \<times> string list" where
  "load_loop fs folderPath [] acc = acc"
| "load_loop fs folderPath (file # files) (images, imageNames) =
     (if IsDir file then load_loop fs folderPath files (images, imageNames)
      else let ext = Ext (Name file) in
        if ext \<noteq> ''.jpg'' \<and> ext \<noteq> ''.jpeg'' \<and> ext \<noteq> ''.png''
        then load_loop fs folderPath files (images, imageNames)
        else (case ReadFile fs (Join fs folderPath (Name file)) of
                Inl err \<Rightarrow> load_loop fs folderPath files (images, imageNames)
              | Inr imageData \<Rightarrow>
                  load_loop fs folderPath files
                    (images @ [imageData], imageNames @ [Name file])))"

definition loadImagesFromFolder ::
  "filesystem \<Rightarrow> string \<Rightarrow> error + (byte list list \<times> string list)" where
  "loadImagesFromFolder fs folderPath =
     (case ReadDir fs folderPath of
        Inl err \<Rightarrow> Inl ErrReadingDirectory
      | Inr files \<Rightarrow>
          (let (images, imageNames) = load_loop fs folderPath files ([], [])
           in if length images = 0 then Inl ErrNoValidImages
              else Inr (images, imageNames)))"

subsection \<open>The dispatch loop of \<^verbatim>\<open>main\<close>\<close>

text \<open>
  Lines 189 to 210 run the main goroutine and one goroutine per request. The model is an
  interleaving of their steps; a step is one operation on the shared objects (the
  \<^verbatim>\<open>WaitGroup\<close> counter, the buffered channel \<^verbatim>\<open>semaphore\<close>, the statistics).

  A goroutine is created with the values of its three arguments. It is first inside the body
  of \<^verbatim>\<open>makeRequest\<close> (\<open>InRequest\<close>); after its call of \<^verbatim>\<open>addSuccess\<close> or \<^verbatim>\<open>addFailure\<close>
  the deferred \<^verbatim>\<open>wg.Done()\<close> is still to run (\<open>Recorded\<close>); after that it is in
  \<^verbatim>\<open>time.Sleep\<close> (\<open>Sleeping\<close>) until its deferred receive from \<^verbatim>\<open>semaphore\<close> (\<open>Exited\<close>).
\<close>

datatype goroutine_status = InRequest | Recorded | Sleeping | Exited

record goroutine =
  requestNum :: nat
  imageData :: "byte list"
  imageName :: string
  status :: goroutine_status

text \<open>The main goroutine is at the loop condition (line 196), at the send on the channel
  (line 198, after \<^verbatim>\<open>wg.Add(1)\<close>), at the \<^verbatim>\<open>go\<close> statement (lines 200 to 207), at
  \<^verbatim>\<open>wg.Wait()\<close> (line 210), or past it.\<close>

datatype main_pc = AtLoop | AtSend | AtSpawn | AtWait | Joined

datatype run_panic = DivideByZero | IndexOutOfRange | NegativeWaitGroupCounter

record config =
  totalRequests :: nat
  concurrentRequests :: nat
  images :: "byte list list"
  imageNames :: "string list"
  responses :: "nat \<Rightarrow> request_env"

record dispatch_state =
  pc :: main_pc
  loop_i :: nat
  wg :: int
  semaphore :: nat
  stats :: RequestStats
  goroutines :: "goroutine list"
  panicked :: "run_panic option"

definition init_state :: dispatch_state where
  "init_state =
     \<lparr>pc = AtLoop, loop_i = 0, wg = 0, semaphore = 0, stats = newRequestStats,
      goroutines = [], panicked = None\<rparr>"

text \<open>The index of line 200.\<close>

definition imageIndex :: "nat \<Rightarrow> 'a list \<Rightarrow> nat" where
  "imageIndex n imgs = n mod length imgs"

text \<open>One step of the main goroutine; \<open>None\<close> when it is blocked (a full channel, a
  positive counter) or has left the loop and the wait.\<close>

definition main_step :: "config \<Rightarrow> dispatch_state \<Rightarrow> dispatch_state option" where
  "main_step cfg s =
     (case pc s of
        AtLoop \<Rightarrow>
          if loop_i s < totalRequests cfg
          then Some (s\<lparr>wg := wg s + 1, pc := AtSend\<rparr>)
          else Some (s\<lparr>pc := AtWait\<rparr>)
      | AtSend \<Rightarrow>
          if semaphore s < concurrentRequests cfg
          then Some (s\<lparr>semaphore := semaphore s + 1, pc := AtSpawn\<rparr>)
          else None
      | AtSpawn \<Rightarrow>
          if length (images cfg) = 0 then Some (s\<lparr>panicked := Some DivideByZero\<rparr>)
          else if length (imageNames cfg) \<le> imageIndex (loop_i s) (images cfg)
          then Some (s\<lparr>panicked := Some IndexOutOfRange\<rparr>)
          else Some (s\<lparr>goroutines := goroutines s @
                        [\<lparr>requestNum = loop_i s,
                          imageData = images cfg ! imageIndex (loop_i s) (images cfg),
                          imageName = imageNames cfg ! imageIndex (loop_i s) (images cfg),
                          status = InRequest\<rparr>],
                      loop_i := loop_i s + 1, pc := AtLoop\<rparr>)
      | AtWait \<Rightarrow> if wg s = 0 then Some (s\<lparr>pc := Joined\<rparr>) else None
      | Joined \<Rightarrow> None)"

text \<open>One step of the goroutine of request \<open>k\<close>; \<open>None\<close> when there is no such goroutine
  yet, when it has exited, or when its receive finds the channel empty.\<close>

definition goroutine_step :: "config \<Rightarrow> nat \<Rightarrow> dispatch_state \<Rightarrow> dispatch_state option" where
  "goroutine_step cfg k s =
     (if length (goroutines s) \<le> k then None
      else let g = goroutines s ! k in
        (case status g of
           InRequest \<Rightarrow>
             Some (s\<lparr>stats := makeRequest_body (responses cfg (requestNum g)) (stats s),
                     goroutines := (goroutines s)[k := g\<lparr>status := Recorded\<rparr>]\<rparr>)
         | Recorded \<Rightarrow>
             if wg s < 1 then Some (s\<lparr>panicked := Some NegativeWaitGroupCounter\<rparr>)
             else Some (s\<lparr>wg := wg_Done (wg s),
                          goroutines := (goroutines s)[k := g\<lparr>status := Sleeping\<rparr>]\<rparr>)
         | Sleeping \<Rightarrow>
             if semaphore s = 0 then None
             else Some (s\<lparr>semaphore := semaphore s - 1,
                          goroutines := (goroutines s)[k := g\<lparr>status := Exited\<rparr>]\<rparr>)
         | Exited \<Rightarrow> None))"

datatype event = MainStep | GoStep nat

text \<open>A panic ends the whole process: no goroutine steps after it.\<close>

definition step :: "config \<Rightarrow> event \<Rightarrow> dispatch_state \<Rightarrow> dispatch_state option" where
  "step cfg ev s =
     (if panicked s \<noteq> None then None
      else (case ev of MainStep \<Rightarrow> main_step cfg s | GoStep k \<Rightarrow> goroutine_step cfg k s))"

text \<open>A schedule is the list of the steps taken, in order; it runs from a state to
  \<open>Some\<close> state when every step of it is enabled in turn.\<close>

fun exec :: "config \<Rightarrow> event list \<Rightarrow> dispatch_state \<Rightarrow> dispatch_state option" where
  "exec cfg [] s = Some s"
| "exec cfg (ev # evs) s =
     (case step cfg ev s of None \<Rightarrow> None | Some s' \<Rightarrow> exec cfg evs s')"

text \<open>The work units that hold a slot of the channel: the one the main goroutine has sent
  for and not yet started, and the goroutines that have not yet received.\<close>

definition permits_held :: "dispatch_state \<Rightarrow> nat" where
  "permits_held s =
     (if pc s = AtSpawn then 1 else 0) +
     length (filter (\<lambda>g. status g \<noteq> Exited) (goroutines s))"

subsection \<open>The report of \<^verbatim>\<open>main\<close>\<close>

text \<open>Line 219, on \<^verbatim>\<open>uint64\<close>.\<close>

definition memoryDifference :: "uint64 \<Rightarrow> uint64 \<Rightarrow> uint64" where
  "memoryDifference finalMemory initialMemory = finalMemory - initialMemory"

text \<open>Go's \<^verbatim>\<open>/\<close> on \<^verbatim>\<open>int64\<close>: a run-time panic when the divisor is zero, otherwise the
  quotient truncated towards zero, wrapped to 64 bits.\<close>

definition Duration_div :: "Duration \<Rightarrow> Duration \<Rightarrow> run_panic + Duration" where
  "Duration_div a b =
     (if b = 0 then Inl DivideByZero else Inr (word_of_int (sint a sdiv sint b)))"

text \<open>The argument of line 226, \<^verbatim>\<open>stats.totalTime/time.Duration(stats.successCount)\<close>.\<close>

definition meanRequestTime :: "RequestStats \<Rightarrow> run_panic + Duration" where
  "meanRequestTime st = Duration_div (totalTime st) (word_of_int (successCount st))"

record report =
  report_totalRequests :: nat
  report_successCount :: int
  report_failureCount :: int
  report_meanRequestTime :: Duration
  report_initialMemory :: uint64
  report_finalMemory :: uint64
  report_memoryDifference :: uint64

text \<open>The world outside the process: the two answers of the Docker daemon, the file system,
  and the answer to each request by its number.\<close>

record world =
  docker_initial :: docker_reply
  docker_final :: docker_reply
  files :: filesystem
  server :: "nat \<Rightarrow> request_env"

datatype main_result =
    AbortInitialMemory error
  | AbortLoadImages error
  | NotEnabled
  | StillRunning dispatch_state
  | Panic run_panic
  | AbortFinalMemory error
  | Report report

text \<open>
  \<^verbatim>\<open>main\<close> with its three constants as parameters, run under a schedule of the
  dispatch loop. \<open>NotEnabled\<close> says that the schedule asks for a step that cannot be taken,
  \<open>StillRunning\<close> that it ends before \<^verbatim>\<open>wg.Wait()\<close> has returned.
\<close>

definition main_with :: "nat \<Rightarrow> nat \<Rightarrow> string \<Rightarrow> world \<Rightarrow> event list \<Rightarrow> main_result" where
  "main_with nTotal nConcurrent imageFolder w sched =
     (case getContainerMemoryUsage (docker_initial w) of
        Inl err \<Rightarrow> AbortInitialMemory err
      | Inr initialMemory \<Rightarrow>
          (case loadImagesFromFolder (files w) imageFolder of
             Inl err \<Rightarrow> AbortLoadImages err
           | Inr (imgs, names) \<Rightarrow>
               (case exec \<lparr>totalRequests = nTotal, concurrentRequests = nConcurrent,
                           images = imgs, imageNames = names, responses = server w\<rparr>
                          sched init_state of
                  None \<Rightarrow> NotEnabled
                | Some s \<Rightarrow>
                    (case panicked s of
                       Some p \<Rightarrow> Panic p
                     | None \<Rightarrow>
                         if pc s \<noteq> Joined then StillRunning s
                         else (case getContainerMemoryUsage (docker_final w) of
                                 Inl err \<Rightarrow> AbortFinalMemory err
                               | Inr finalMemory \<Rightarrow>
                                   (case meanRequestTime (stats s) of
                                      Inl p \<Rightarrow> Panic p
                                    | Inr mean \<Rightarrow>
                                        Report
                                          \<lparr>report_totalRequests = nTotal,
                                           report_successCount = successCount (stats s),
                                           report_failureCount = failureCount (stats s),
                                           report_meanRequestTime = mean,
                                           report_initialMemory = initialMemory,
                                           report_finalMemory = finalMemory,
                                           report_memoryDifference =
                                             memoryDifference finalMemory initialMemory\<rparr>))))))"

definition main :: "world \<Rightarrow> event list \<Rightarrow> main_result" where
  "main = main_with 1000 10 ''1''"

subsection \<open>Notions used in the statements\<close>

text \<open>The number of goroutines in a given phase.\<close>

definition count_status :: "goroutine_status \<Rightarrow> goroutine list \<Rightarrow> nat" where
  "count_status x gs = length (filter (\<lambda>g. status g = x) gs)"

text \<open>The invariant of the dispatch loop that ties the three shared objects to the phases
  of the goroutines.\<close>

definition counts_inv :: "config \<Rightarrow> dispatch_state \<Rightarrow> bool" where
  "counts_inv cfg s =
     (length (goroutines s) = loop_i s
      \<and> (case pc s of
            AtLoop \<Rightarrow> loop_i s \<le> totalRequests cfg
          | AtSend \<Rightarrow> loop_i s < totalRequests cfg
          | AtSpawn \<Rightarrow> loop_i s < totalRequests cfg
          | AtWait \<Rightarrow> loop_i s = totalRequests cfg
          | Joined \<Rightarrow> loop_i s = totalRequests cfg
                       \<and> count_status InRequest (goroutines s) = 0
                       \<and> count_status Recorded (goroutines s) = 0)
      \<and> wg s = int (count_status InRequest (goroutines s) + count_status Recorded (goroutines s))
                 + (if pc s = AtSend \<or> pc s = AtSpawn then 1 else 0)
      \<and> semaphore s = count_status InRequest (goroutines s) + count_status Recorded (goroutines s)
                 + count_status Sleeping (goroutines s) + (if pc s = AtSpawn then 1 else 0)
      \<and> semaphore s \<le> concurrentRequests cfg
      \<and> successCount (stats s) + failureCount (stats s)
           = int (count_status Recorded (goroutines s) + count_status Sleeping (goroutines s)
                  + count_status Exited (goroutines s))
      \<and> 0 \<le> successCount (stats s) \<and> 0 \<le> failureCount (stats s))"

text \<open>The arguments every goroutine was started with.\<close>

definition args_inv :: "config \<Rightarrow> dispatch_state \<Rightarrow> bool" where
  "args_inv cfg s =
     (\<forall>k < length (goroutines s).
        requestNum (goroutines s ! k) = k
        \<and> imageData (goroutines s ! k) = images cfg ! (k mod length (images cfg))
        \<and> imageName (goroutines s ! k) = imageNames cfg ! (k mod length (images cfg)))"

text \<open>The number of steps that a state has left: those of the main goroutine up to the
  return of \<^verbatim>\<open>wg.Wait()\<close> (six per request not yet started, three of them for its
  goroutine), those of the goroutines started, and one for a panic.\<close>

fun main_steps_left :: "nat \<Rightarrow> main_pc \<Rightarrow> nat \<Rightarrow> nat" where
  "main_steps_left n AtLoop m = 6 * (n - m) + 2"
| "main_steps_left n AtSend m = 6 * (n - m) + 1"
| "main_steps_left n AtSpawn m = 6 * (n - m)"
| "main_steps_left n AtWait m = 1"
| "main_steps_left n Joined m = 0"

definition steps_left :: "config \<Rightarrow> dispatch_state \<Rightarrow> nat" where
  "steps_left cfg s =
     main_steps_left (totalRequests cfg) (pc s) (loop_i s)
     + 3 * count_status InRequest (goroutines s)
     + 2 * count_status Recorded (goroutines s)
     + count_status Sleeping (goroutines s)
     + (if panicked s = None then 1 else 0)"

text \<open>An entry that the loader keeps: not a directory, one of the three extensions, and
  readable; and the bytes read for an entry.\<close>

definition loadable :: "filesystem \<Rightarrow> string \<Rightarrow> DirEntry \<Rightarrow> bool" where
  "loadable fs folderPath file =
     (\<not> IsDir file
      \<and> (Ext (Name file) = ''.jpg'' \<or> Ext (Name file) = ''.jpeg'' \<or> Ext (Name file) = ''.png'')
      \<and> \<not> isl (ReadFile fs (Join fs folderPath (Name file))))"

definition content :: "filesystem \<Rightarrow> string \<Rightarrow> DirEntry \<Rightarrow> byte list" where
  "content fs folderPath file =
     (case ReadFile fs (Join fs folderPath (Name file)) of Inl err \<Rightarrow> [] | Inr bytes \<Rightarrow> bytes)"

subsection \<open>Concrete worlds and schedules\<close>

definition docker_ok :: "uint64 \<Rightarrow> docker_reply" where
  "docker_ok m =
     \<lparr>newClient_err = False, containerStats_err = False, fromJSON_err = False,
      memoryUsage = m\<rparr>"

definition answer :: "int \<Rightarrow> request_env" where
  "answer code =
     \<lparr>createFormFile_err = False, write_err = False, newRequest_err = False,
      do_result = Inr code, duration = 7\<rparr>"

text \<open>A folder \<^verbatim>\<open>1\<close> with a directory, three images (one of them unreadable), a file with
  an upper-case extension and a text file.\<close>

definition photo_fs :: filesystem where
  "photo_fs =
     \<lparr>ReadDir = (\<lambda>p. if p = ''1''
                    then Inr [\<lparr>Name = ''album.jpg'', Type = Directory\<rparr>,
                              \<lparr>Name = ''a.jpg'', Type = Regular\<rparr>,
                              \<lparr>Name = ''B.JPG'', Type = Regular\<rparr>,
                              \<lparr>Name = ''c.png'', Type = Regular\<rparr>,
                              \<lparr>Name = ''d.jpeg'', Type = Regular\<rparr>,
                              \<lparr>Name = ''notes.txt'', Type = Regular\<rparr>]
                    else Inl ErrReadingDirectory),
      ReadFile = (\<lambda>p. if p = ''1/a.jpg'' then Inr [1, 2]
                     else if p = ''1/B.JPG'' then Inr [9]
                     else if p = ''1/d.jpeg'' then Inr [3]
                     else Inl ErrReadFile),
      Join = (\<lambda>d n. d @ ''/'' @ n)\<rparr>"

text \<open>A folder \<^verbatim>\<open>1\<close> with a symbolic link to a readable image and a named pipe that a
  writer fills and closes.\<close>

definition special_fs :: filesystem where
  "special_fs =
     \<lparr>ReadDir = (\<lambda>p. if p = ''1''
                    then Inr [\<lparr>Name = ''a.jpg'', Type = Symlink\<rparr>,
                              \<lparr>Name = ''b.png'', Type = NamedPipe\<rparr>]
                    else Inl ErrReadingDirectory),
      ReadFile = (\<lambda>p. if p = ''1/a.jpg'' then Inr [1, 2]
                     else if p = ''1/b.png'' then Inr [3]
                     else Inl ErrReadFile),
      Join = (\<lambda>d n. d @ ''/'' @ n)\<rparr>"

text \<open>A folder \<^verbatim>\<open>1\<close> with no image.\<close>

definition text_fs :: filesystem where
  "text_fs =
     \<lparr>ReadDir = (\<lambda>p. if p = ''1'' then Inr [\<lparr>Name = ''notes.txt'', Type = Regular\<rparr>]
                    else Inl ErrReadingDirectory),
      ReadFile = (\<lambda>p. Inr []),
      Join = (\<lambda>d n. d @ ''/'' @ n)\<rparr>"

definition photo_world :: "int \<Rightarrow> world" where
  "photo_world code =
     \<lparr>docker_initial = docker_ok 5000, docker_final = docker_ok 3000, files = photo_fs,
      server = (\<lambda>n. answer code)\<rparr>"

definition text_world :: world where
  "text_world =
     \<lparr>docker_initial = docker_ok 5000, docker_final = docker_ok 3000, files = text_fs,
      server = (\<lambda>n. answer 200)\<rparr>"

definition photo_config :: "nat \<Rightarrow> nat \<Rightarrow> int \<Rightarrow> config" where
  "photo_config nTotal nConcurrent code =
     \<lparr>totalRequests = nTotal, concurrentRequests = nConcurrent,
      images = [[1, 2], [3]], imageNames = [''a.jpg'', ''d.jpeg''],
      responses = (\<lambda>n. answer code)\<rparr>"

text \<open>Two requests, one at a time, each run to its end before the next starts.\<close>

definition serial_schedule :: "event list" where
  "serial_schedule =
     [MainStep, MainStep, MainStep, GoStep 0, GoStep 0, GoStep 0,
      MainStep, MainStep, MainStep, GoStep 1, GoStep 1, GoStep 1,
      MainStep, MainStep]"

text \<open>Two requests, both slots taken, and \<^verbatim>\<open>wg.Wait()\<close> returning while both goroutines
  sleep.\<close>

definition early_schedule :: "event list" where
  "early_schedule =
     [MainStep, MainStep, MainStep, MainStep, MainStep, MainStep,
      GoStep 1, GoStep 0, GoStep 0, GoStep 1, MainStep, MainStep]"

text \<open>The states in which the two schedules end.\<close>

definition serial_end :: dispatch_state where
  "serial_end =
     \<lparr>pc = Joined, loop_i = 2, wg = 0, semaphore = 0,
      stats = \<lparr>successCount = 2, failureCount = 0, totalTime = 14\<rparr>,
      goroutines =
        [\<lparr>requestNum = 0, imageData = [1, 2], imageName = ''a.jpg'', status = Exited\<rparr>,
         \<lparr>requestNum = 1, imageData = [3], imageName = ''d.jpeg'', status = Exited\<rparr>],
      panicked = None\<rparr>"

definition early_end :: dispatch_state where
  "early_end =
     \<lparr>pc = Joined, loop_i = 2, wg = 0, semaphore = 2,
      stats = \<lparr>successCount = 0, failureCount = 2, totalTime = 0\<rparr>,
      goroutines =
        [\<lparr>requestNum = 0, imageData = [1, 2], imageName = ''a.jpg'', status = Sleeping\<rparr>,
         \<lparr>requestNum = 1, imageData = [3], imageName = ''d.jpeg'', status = Sleeping\<rparr>],
      panicked = None\<rparr>"

text \<open>The report of \<^verbatim>\<open>main\<close> after the serial schedule, with a first memory sample of
  5000 bytes and a second of 3000.\<close>

definition serial_report :: report where
  "serial_report =
     \<lparr>report_totalRequests = 2, report_successCount = 2, report_failureCount = 0,
      report_meanRequestTime = 7, report_initialMemory = 5000, report_finalMemory = 3000,
      report_memoryDifference = 18446744073709549616\<rparr>"

text \<open>Seven requests over a corpus of three images, all seven goroutines started before
  any of them runs.\<close>

definition cycle_config :: config where
  "cycle_config =
     \<lparr>totalRequests = 7, concurrentRequests = 7,
      images = [[10], [11], [12]], imageNames = [''x.jpg'', ''y.jpeg'', ''z.png''],
      responses = (\<lambda>n. answer 200)\<rparr>"

definition cycle_schedule :: "event list" where
  "cycle_schedule =
     [MainStep, MainStep, MainStep, MainStep, MainStep, MainStep, MainStep,
      MainStep, MainStep, MainStep, MainStep, MainStep, MainStep, MainStep,
      MainStep, MainStep, MainStep, MainStep, MainStep, MainStep, MainStep]"

definition cycle_end :: dispatch_state where
  "cycle_end =
     \<lparr>pc = AtLoop, loop_i = 7, wg = 7, semaphore = 7, stats = newRequestStats,
      goroutines =
        [\<lparr>requestNum = 0, imageData = [10], imageName = ''x.jpg'', status = InRequest\<rparr>,
         \<lparr>requestNum = 1, imageData = [11], imageName = ''y.jpeg'', status = InRequest\<rparr>,
         \<lparr>requestNum = 2, imageData = [12], imageName = ''z.png'', status = InRequest\<rparr>,
         \<lparr>requestNum = 3, imageData = [10], imageName = ''x.jpg'', status = InRequest\<rparr>,
         \<lparr>requestNum = 4, imageData = [11], imageName = ''y.jpeg'', status = InRequest\<rparr>,
         \<lparr>requestNum = 5, imageData = [12], imageName = ''z.png'', status = InRequest\<rparr>,
         \<lparr>requestNum = 6, imageData = [10], imageName = ''x.jpg'', status = InRequest\<rparr>],
      panicked = None\<rparr>"

section \<open>Properties\<close>

subsection \<open>Counting goroutines by phase\<close>

lemma count_status_append:
  "count_status x (gs @ [g]) = count_status x gs + (if status g = x then 1 else 0)"
  by (simp add: count_status_def)

lemma count_status_total:
  "count_status InRequest gs + count_status Recorded gs + count_status Sleeping gs
     + count_status Exited gs = length gs"
proof (induction gs)
  case Nil
  show ?case by (simp add: count_status_def)
next
  case (Cons g gs)
  then show ?case by (cases "status g") (simp_all add: count_status_def)
qed

lemma count_status_update:
  "k < length gs \<Longrightarrow>
   count_status x (gs[k := (gs ! k)\<lparr>status := b\<rparr>]) + (if status (gs ! k) = x then 1 else 0)
     = count_status x gs + (if b = x then 1 else 0)"
proof (induction gs arbitrary: k)
  case Nil
  then show ?case by simp
next
  case (Cons g gs)
  show ?case
  proof (cases k)
    case 0
    then show ?thesis by (simp add: count_status_def)
  next
    case (Suc j)
    with Cons.prems have "j < length gs" by simp
    from Cons.IH [OF this] Suc show ?thesis
      by (auto simp: count_status_def split: if_splits)
  qed
qed

lemma not_exited_count:
  "length (filter (\<lambda>g. status g \<noteq> Exited) gs)
     = count_status InRequest gs + count_status Recorded gs + count_status Sleeping gs"
proof (induction gs)
  case Nil
  show ?case by (simp add: count_status_def)
next
  case (Cons g gs)
  then show ?case by (cases "status g") (simp_all add: count_status_def)
qed

lemma makeRequest_body_cases:
  "makeRequest_body env st = addFailure st \<or> makeRequest_body env st = addSuccess (duration env) st"
  by (simp add: makeRequest_body_def split: sum.splits)

lemma makeRequest_body_counts:
  "successCount (makeRequest_body env st) + failureCount (makeRequest_body env st)
     = successCount st + failureCount st + 1
   \<and> successCount st \<le> successCount (makeRequest_body env st)
   \<and> failureCount st \<le> failureCount (makeRequest_body env st)"
  using makeRequest_body_cases [of env st]
  by (auto simp: addFailure_def addSuccess_def)

lemma counts_inv_init: "counts_inv cfg init_state"
  by (simp add: counts_inv_def init_state_def count_status_def newRequestStats_def)

lemma counts_inv_main_step:
  assumes "counts_inv cfg s" and "main_step cfg s = Some s'"
  shows "counts_inv cfg s'"
proof (cases "pc s")
  case AtLoop
  with assms show ?thesis
    by (auto simp: counts_inv_def main_step_def split: if_splits)
next
  case AtSend
  with assms show ?thesis
    by (auto simp: counts_inv_def main_step_def split: if_splits)
next
  case AtSpawn
  with assms show ?thesis
    by (auto simp: counts_inv_def main_step_def count_status_append split: if_splits)
next
  case AtWait
  with assms show ?thesis
    by (auto simp: counts_inv_def main_step_def split: if_splits)
next
  case Joined
  with assms show ?thesis by (simp add: main_step_def)
qed

lemma counts_inv_goroutine_step:
  assumes inv: "counts_inv cfg s" and st: "goroutine_step cfg k s = Some s'"
  shows "counts_inv cfg s'"
proof -
  let ?gs = "goroutines s"
  from st have k: "k < length ?gs"
    by (auto simp: goroutine_step_def split: if_splits)
  note upd = count_status_update [OF k]
  show ?thesis
  proof (cases "status (?gs ! k)")
    case InRequest
    with st k have s': "s' = s\<lparr>stats := makeRequest_body (responses cfg (requestNum (?gs ! k))) (stats s),
                     goroutines := ?gs[k := (?gs ! k)\<lparr>status := Recorded\<rparr>]\<rparr>"
      by (simp add: goroutine_step_def Let_def)
    from upd [of InRequest Recorded] upd [of Recorded Recorded] upd [of Sleeping Recorded]
      upd [of Exited Recorded] InRequest
    have c: "count_status InRequest (?gs[k := (?gs ! k)\<lparr>status := Recorded\<rparr>]) + 1 = count_status InRequest ?gs"
      "count_status Recorded (?gs[k := (?gs ! k)\<lparr>status := Recorded\<rparr>]) = count_status Recorded ?gs + 1"
      "count_status Sleeping (?gs[k := (?gs ! k)\<lparr>status := Recorded\<rparr>]) = count_status Sleeping ?gs"
      "count_status Exited (?gs[k := (?gs ! k)\<lparr>status := Recorded\<rparr>]) = count_status Exited ?gs"
      by simp_all
    note b = makeRequest_body_counts [of "responses cfg (requestNum (?gs ! k))" "stats s"]
    from inv c b show ?thesis unfolding s' counts_inv_def
      by (auto split: main_pc.splits)
  next
    case Recorded
    from inv upd [of Recorded Sleeping] Recorded have "0 < wg s"
      by (simp add: counts_inv_def)
    with st k Recorded have s': "s' = s\<lparr>wg := wg_Done (wg s),
                     goroutines := ?gs[k := (?gs ! k)\<lparr>status := Sleeping\<rparr>]\<rparr>"
      by (simp add: goroutine_step_def Let_def)
    from upd [of InRequest Sleeping] upd [of Recorded Sleeping] upd [of Sleeping Sleeping]
      upd [of Exited Sleeping] Recorded
    have c: "count_status InRequest (?gs[k := (?gs ! k)\<lparr>status := Sleeping\<rparr>]) = count_status InRequest ?gs"
      "count_status Recorded (?gs[k := (?gs ! k)\<lparr>status := Sleeping\<rparr>]) + 1 = count_status Recorded ?gs"
      "count_status Sleeping (?gs[k := (?gs ! k)\<lparr>status := Sleeping\<rparr>]) = count_status Sleeping ?gs + 1"
      "count_status Exited (?gs[k := (?gs ! k)\<lparr>status := Sleeping\<rparr>]) = count_status Exited ?gs"
      by simp_all
    from inv c show ?thesis unfolding s' counts_inv_def wg_Done_def
      by (auto split: main_pc.splits)
  next
    case Sleeping
    from upd [of InRequest Exited] upd [of Recorded Exited] upd [of Sleeping Exited]
      upd [of Exited Exited] Sleeping
    have c: "count_status InRequest (?gs[k := (?gs ! k)\<lparr>status := Exited\<rparr>]) = count_status InRequest ?gs"
      "count_status Recorded (?gs[k := (?gs ! k)\<lparr>status := Exited\<rparr>]) = count_status Recorded ?gs"
      "count_status Sleeping (?gs[k := (?gs ! k)\<lparr>status := Exited\<rparr>]) + 1 = count_status Sleeping ?gs"
      "count_status Exited (?gs[k := (?gs ! k)\<lparr>status := Exited\<rparr>]) = count_status Exited ?gs + 1"
      by simp_all
    from inv c have "0 < semaphore s" by (simp add: counts_inv_def)
    with st k Sleeping have s': "s' = s\<lparr>semaphore := semaphore s - 1,
                     goroutines := ?gs[k := (?gs ! k)\<lparr>status := Exited\<rparr>]\<rparr>"
      by (simp add: goroutine_step_def Let_def)
    from inv c show ?thesis unfolding s' counts_inv_def
      by (auto split: main_pc.splits)
  next
    case Exited
    with st k show ?thesis by (simp add: goroutine_step_def Let_def)
  qed
qed

lemma counts_inv_step:
  "counts_inv cfg s \<Longrightarrow> step cfg ev s = Some s' \<Longrightarrow> counts_inv cfg s'"
  by (cases ev)
     (auto simp: step_def split: if_splits
           intro: counts_inv_main_step counts_inv_goroutine_step)

lemma counts_inv_exec:
  "counts_inv cfg s \<Longrightarrow> exec cfg evs s = Some s' \<Longrightarrow> counts_inv cfg s'"
proof (induction evs arbitrary: s)
  case Nil
  then show ?case by simp
next
  case (Cons ev evs)
  then show ?case by (auto split: option.splits dest: counts_inv_step)
qed


lemma count_status_zero:
  "count_status x gs = 0 \<longleftrightarrow> (\<forall>g \<in> set gs. status g \<noteq> x)"
  by (auto simp: count_status_def filter_empty_conv)

lemma args_inv_init: "args_inv cfg init_state"
  by (simp add: args_inv_def init_state_def)

lemma args_inv_main_step:
  assumes "args_inv cfg s" and "length (goroutines s) = loop_i s"
    and "main_step cfg s = Some s'"
  shows "args_inv cfg s'"
proof (cases "pc s")
  case AtSpawn
  with assms show ?thesis
    by (auto simp: args_inv_def main_step_def imageIndex_def nth_append less_Suc_eq
             split: if_splits)
qed (use assms in \<open>auto simp: args_inv_def main_step_def split: if_splits\<close>)

lemma args_inv_goroutine_step:
  assumes "args_inv cfg s" and "goroutine_step cfg k s = Some s'"
  shows "args_inv cfg s'"
  using assms
  by (cases "status (goroutines s ! k)")
     (auto simp: args_inv_def goroutine_step_def Let_def nth_list_update split: if_splits)

lemma invs_step:
  assumes "counts_inv cfg s \<and> args_inv cfg s" and "step cfg ev s = Some s'"
  shows "counts_inv cfg s' \<and> args_inv cfg s'"
proof (cases ev)
  case MainStep
  with assms have m: "main_step cfg s = Some s'"
    by (simp add: step_def split: if_splits)
  from assms have "length (goroutines s) = loop_i s"
    by (simp add: counts_inv_def)
  with assms m show ?thesis
    by (blast intro: counts_inv_main_step args_inv_main_step)
next
  case (GoStep k)
  with assms have "goroutine_step cfg k s = Some s'"
    by (simp add: step_def split: if_splits)
  with assms show ?thesis
    by (blast intro: counts_inv_goroutine_step args_inv_goroutine_step)
qed

lemma invs_exec:
  "counts_inv cfg s \<and> args_inv cfg s \<Longrightarrow> exec cfg evs s = Some s'
     \<Longrightarrow> counts_inv cfg s' \<and> args_inv cfg s'"
proof (induction evs arbitrary: s)
  case Nil
  then show ?case by simp
next
  case (Cons ev evs)
  from Cons.prems(2) obtain s1 where s1: "step cfg ev s = Some s1" "exec cfg evs s1 = Some s'"
    by (auto split: option.splits)
  from invs_step [OF Cons.prems(1) s1(1)] Cons.IH s1(2) show ?case by blast
qed

lemma reachable_invs:
  "exec cfg evs init_state = Some s \<Longrightarrow> counts_inv cfg s \<and> args_inv cfg s"
  using invs_exec [of cfg init_state evs s] counts_inv_init args_inv_init by blast

subsection \<open>Every run ends\<close>

lemma steps_left_main_step:
  assumes "counts_inv cfg s" and "panicked s = None" and "main_step cfg s = Some s'"
  shows "steps_left cfg s = Suc (steps_left cfg s')"
proof (cases "pc s")
  case AtSpawn
  with assms show ?thesis
    by (auto simp: steps_left_def counts_inv_def main_step_def count_status_append
             split: if_splits)
qed (use assms in \<open>auto simp: steps_left_def counts_inv_def main_step_def split: if_splits\<close>)

lemma steps_left_goroutine_step:
  assumes inv: "counts_inv cfg s" and np: "panicked s = None"
    and st: "goroutine_step cfg k s = Some s'"
  shows "steps_left cfg s = Suc (steps_left cfg s')"
proof -
  let ?gs = "goroutines s"
  from st have k: "k < length ?gs"
    by (auto simp: goroutine_step_def split: if_splits)
  note upd = count_status_update [OF k]
  show ?thesis
  proof (cases "status (?gs ! k)")
    case InRequest
    with st k have s': "s' = s\<lparr>stats := makeRequest_body (responses cfg (requestNum (?gs ! k))) (stats s),
                     goroutines := ?gs[k := (?gs ! k)\<lparr>status := Recorded\<rparr>]\<rparr>"
      by (simp add: goroutine_step_def Let_def)
    from upd [of InRequest Recorded] upd [of Recorded Recorded] upd [of Sleeping Recorded]
      InRequest np
    show ?thesis unfolding s' steps_left_def by simp
  next
    case Recorded
    from inv upd [of Recorded Sleeping] Recorded have "0 < wg s"
      by (simp add: counts_inv_def)
    with st k Recorded have s': "s' = s\<lparr>wg := wg_Done (wg s),
                     goroutines := ?gs[k := (?gs ! k)\<lparr>status := Sleeping\<rparr>]\<rparr>"
      by (simp add: goroutine_step_def Let_def)
    from upd [of InRequest Sleeping] upd [of Recorded Sleeping] upd [of Sleeping Sleeping]
      Recorded np
    show ?thesis unfolding s' steps_left_def by simp
  next
    case Sleeping
    from inv upd [of Sleeping Exited] Sleeping have "0 < semaphore s"
      by (simp add: counts_inv_def)
    with st k Sleeping have s': "s' = s\<lparr>semaphore := semaphore s - 1,
                     goroutines := ?gs[k := (?gs ! k)\<lparr>status := Exited\<rparr>]\<rparr>"
      by (simp add: goroutine_step_def Let_def)
    from upd [of InRequest Exited] upd [of Recorded Exited] upd [of Sleeping Exited]
      Sleeping np
    show ?thesis unfolding s' steps_left_def by simp
  next
    case Exited
    with st k show ?thesis by (simp add: goroutine_step_def Let_def)
  qed
qed

lemma steps_left_step:
  assumes "counts_inv cfg s" and "step cfg ev s = Some s'"
  shows "steps_left cfg s = Suc (steps_left cfg s')"
proof -
  from assms(2) have np: "panicked s = None"
    by (simp add: step_def split: if_splits)
  show ?thesis
  proof (cases ev)
    case MainStep
    with assms(2) np have "main_step cfg s = Some s'" by (simp add: step_def)
    with assms(1) np show ?thesis by (rule steps_left_main_step)
  next
    case (GoStep k)
    with assms(2) np have "goroutine_step cfg k s = Some s'" by (simp add: step_def)
    with assms(1) np show ?thesis by (rule steps_left_goroutine_step)
  qed
qed

lemma steps_left_exec:
  "counts_inv cfg s \<Longrightarrow> exec cfg evs s = Some s'
     \<Longrightarrow> steps_left cfg s = length evs + steps_left cfg s'"
proof (induction evs arbitrary: s)
  case Nil
  then show ?case by simp
next
  case (Cons ev evs)
  from Cons.prems(2) obtain s1 where s1: "step cfg ev s = Some s1" "exec cfg evs s1 = Some s'"
    by (auto split: option.splits)
  from counts_inv_step [OF Cons.prems(1) s1(1)] have "counts_inv cfg s1" .
  from Cons.IH [OF this s1(2)] steps_left_step [OF Cons.prems(1) s1(1)]
  show ?case by simp
qed

lemma steps_left_init: "steps_left cfg init_state = 6 * totalRequests cfg + 3"
  by (simp add: steps_left_def init_state_def count_status_def)

lemma exec_append:
  "exec cfg (evs @ evs') s =
     (case exec cfg evs s of None \<Rightarrow> None | Some s1 \<Rightarrow> exec cfg evs' s1)"
  by (induction evs arbitrary: s) (auto split: option.splits)


lemma no_panic_step:
  assumes inv: "counts_inv cfg s"
    and corpus: "images cfg \<noteq> []" "length (imageNames cfg) = length (images cfg)"
    and st: "step cfg ev s = Some s'"
  shows "panicked s' = None"
proof -
  from st have np: "panicked s = None"
    by (simp add: step_def split: if_splits)
  show ?thesis
  proof (cases ev)
    case MainStep
    with st np have m: "main_step cfg s = Some s'" by (simp add: step_def)
    from corpus have "imageIndex (loop_i s) (images cfg) < length (imageNames cfg)"
      by (simp add: imageIndex_def)
    with m np corpus show ?thesis
      by (cases "pc s") (auto simp: main_step_def split: if_splits)
  next
    case (GoStep k)
    with st np have g: "goroutine_step cfg k s = Some s'" by (simp add: step_def)
    then have k: "k < length (goroutines s)"
      by (auto simp: goroutine_step_def split: if_splits)
    show ?thesis
    proof (cases "status (goroutines s ! k)")
      case Recorded
      from inv count_status_update [OF k, of Recorded Sleeping] Recorded have "0 < wg s"
        by (simp add: counts_inv_def)
      with g k Recorded np show ?thesis
        by (auto simp: goroutine_step_def Let_def)
    qed (use g k np in \<open>auto simp: goroutine_step_def Let_def split: if_splits\<close>)
  qed
qed

lemma no_panic_exec:
  assumes "images cfg \<noteq> []" and "length (imageNames cfg) = length (images cfg)"
  shows "counts_inv cfg s \<Longrightarrow> panicked s = None \<Longrightarrow> exec cfg evs s = Some s'
     \<Longrightarrow> panicked s' = None"
proof (induction evs arbitrary: s)
  case Nil
  then show ?case by simp
next
  case (Cons ev evs)
  from Cons.prems(3) obtain s1 where s1: "step cfg ev s = Some s1" "exec cfg evs s1 = Some s'"
    by (auto split: option.splits)
  from counts_inv_step [OF Cons.prems(1) s1(1)] no_panic_step [OF Cons.prems(1) assms s1(1)]
    Cons.IH s1(2)
  show ?case by blast
qed

lemma goroutine_can_step:
  assumes inv: "counts_inv cfg s" and np: "panicked s = None"
    and k: "k < length (goroutines s)" and live: "status (goroutines s ! k) \<noteq> Exited"
  shows "\<exists>s'. step cfg (GoStep k) s = Some s'"
proof (cases "status (goroutines s ! k)")
  case Sleeping
  from inv count_status_update [OF k, of Sleeping Exited] Sleeping have "0 < semaphore s"
    by (simp add: counts_inv_def)
  with np k Sleeping show ?thesis
    by (simp add: step_def goroutine_step_def Let_def)
qed (use np k live in \<open>auto simp: step_def goroutine_step_def Let_def\<close>)

lemma main_can_step:
  assumes inv: "counts_inv cfg s" and np: "panicked s = None"
    and c: "0 < concurrentRequests cfg"
    and idle: "\<forall>g \<in> set (goroutines s). status g = Exited"
    and nj: "pc s \<noteq> Joined"
  shows "\<exists>s'. step cfg MainStep s = Some s'"
proof -
  from idle have z: "count_status InRequest (goroutines s) = 0"
    "count_status Recorded (goroutines s) = 0" "count_status Sleeping (goroutines s) = 0"
    by (auto simp: count_status_zero)
  from inv z np c nj show ?thesis
    by (cases "pc s") (auto simp: step_def main_step_def counts_inv_def)
qed

lemma can_step:
  assumes inv: "counts_inv cfg s" and np: "panicked s = None"
    and c: "0 < concurrentRequests cfg"
    and more: "pc s \<noteq> Joined \<or> (\<exists>g \<in> set (goroutines s). status g \<noteq> Exited)"
  shows "\<exists>ev s'. step cfg ev s = Some s'"
proof (cases "\<exists>g \<in> set (goroutines s). status g \<noteq> Exited")
  case True
  then obtain k where "k < length (goroutines s)" "status (goroutines s ! k) \<noteq> Exited"
    by (auto simp: in_set_conv_nth)
  from goroutine_can_step [OF inv np this] show ?thesis by blast
next
  case False
  with more have "pc s \<noteq> Joined" and "\<forall>g \<in> set (goroutines s). status g = Exited"
    by auto
  from main_can_step [OF inv np c this(2) this(1)] show ?thesis by blast
qed

lemma completes_from:
  assumes corpus: "images cfg \<noteq> []" "length (imageNames cfg) = length (images cfg)"
    and c: "0 < concurrentRequests cfg"
  shows "counts_inv cfg s \<Longrightarrow> panicked s = None \<Longrightarrow>
     \<exists>evs s'. exec cfg evs s = Some s' \<and> pc s' = Joined
        \<and> (\<forall>g \<in> set (goroutines s'). status g = Exited)"
proof (induction "steps_left cfg s" arbitrary: s rule: less_induct)
  case less
  show ?case
  proof (cases "pc s \<noteq> Joined \<or> (\<exists>g \<in> set (goroutines s). status g \<noteq> Exited)")
    case False
    then have "exec cfg [] s = Some s \<and> pc s = Joined
        \<and> (\<forall>g \<in> set (goroutines s). status g = Exited)"
      by simp
    then show ?thesis by blast
  next
    case True
    from can_step [OF less.prems c True] obtain ev s1 where s1: "step cfg ev s = Some s1"
      by blast
    from steps_left_step [OF less.prems(1) s1] have "steps_left cfg s1 < steps_left cfg s"
      by simp
    moreover from counts_inv_step [OF less.prems(1) s1] have "counts_inv cfg s1" .
    moreover from no_panic_step [OF less.prems(1) corpus s1] have "panicked s1 = None" .
    ultimately obtain evs s' where e: "exec cfg evs s1 = Some s'" "pc s' = Joined"
        "\<forall>g \<in> set (goroutines s'). status g = Exited"
      using less.hyps by blast
    from s1 e(1) have "exec cfg (ev # evs) s = Some s'" by simp
    with e(2,3) show ?thesis by blast
  qed
qed

lemma every_run_completes:
  assumes "exec cfg evs init_state = Some s"
    and "0 < concurrentRequests cfg"
    and "images cfg \<noteq> []" and "length (imageNames cfg) = length (images cfg)"
  shows "\<exists>evs' s'. exec cfg (evs @ evs') init_state = Some s' \<and> pc s' = Joined
        \<and> (\<forall>g \<in> set (goroutines s'). status g = Exited)"
proof -
  from reachable_invs [OF assms(1)] have inv: "counts_inv cfg s" by simp
  have "panicked init_state = None" by (simp add: init_state_def)
  from no_panic_exec [OF assms(3,4) counts_inv_init this assms(1)] have np: "panicked s = None" .
  from completes_from [OF assms(3,4,2) inv np] obtain evs' s'
    where "exec cfg evs' s = Some s'" "pc s' = Joined"
      "\<forall>g \<in> set (goroutines s'). status g = Exited"
    by blast
  with assms(1) have "exec cfg (evs @ evs') init_state = Some s' \<and> pc s' = Joined
        \<and> (\<forall>g \<in> set (goroutines s'). status g = Exited)"
    by (simp add: exec_append)
  then show ?thesis by blast
qed

lemma run_length:
  assumes "exec cfg evs init_state = Some s"
  shows "length evs + steps_left cfg s = 6 * totalRequests cfg + 3"
  using steps_left_exec [OF counts_inv_init assms] steps_left_init [of cfg] by simp

subsection \<open>The loader as a filter\<close>

lemma load_loop_eq:
  "load_loop fs folderPath fls (imgs, names) =
     (imgs @ map (content fs folderPath) (filter (loadable fs folderPath) fls),
      names @ map Name (filter (loadable fs folderPath) fls))"
proof (induction fls arbitrary: imgs names)
  case Nil
  show ?case by simp
next
  case (Cons f fls)
  show ?case
    by (cases "ReadFile fs (Join fs folderPath (Name f))")
       (simp_all add: Cons.IH loadable_def content_def Let_def)
qed

lemma loadImagesFromFolder_eq:
  "loadImagesFromFolder fs folderPath =
     (case ReadDir fs folderPath of
        Inl err \<Rightarrow> Inl ErrReadingDirectory
      | Inr fls \<Rightarrow>
          if filter (loadable fs folderPath) fls = [] then Inl ErrNoValidImages
          else Inr (map (content fs folderPath) (filter (loadable fs folderPath) fls),
                    map Name (filter (loadable fs folderPath) fls)))"
  by (simp add: loadImagesFromFolder_def load_loop_eq split: sum.splits)

subsection \<open>The concrete runs\<close>

lemma serial_run: "exec (photo_config 2 1 200) serial_schedule init_state = Some serial_end"
  by (simp add: photo_config_def serial_schedule_def init_state_def serial_end_def step_def
        main_step_def goroutine_step_def imageIndex_def makeRequest_body_def answer_def
        StatusOK_def addSuccess_def addFailure_def newRequestStats_def wg_Done_def)

lemma early_run: "exec (photo_config 2 2 500) early_schedule init_state = Some early_end"
  by (simp add: photo_config_def early_schedule_def init_state_def early_end_def step_def
        main_step_def goroutine_step_def imageIndex_def makeRequest_body_def answer_def
        StatusOK_def addSuccess_def addFailure_def newRequestStats_def wg_Done_def)

lemma cycle_run: "exec cycle_config cycle_schedule init_state = Some cycle_end"
  by (simp add: cycle_config_def cycle_schedule_def init_state_def cycle_end_def step_def
        main_step_def imageIndex_def)

lemma photo_load:
  "loadImagesFromFolder photo_fs ''1'' = Inr ([[1, 2], [3]], [''a.jpg'', ''d.jpeg''])"
  by (simp add: loadImagesFromFolder_def photo_fs_def IsDir_def Ext_def)

lemma text_load: "loadImagesFromFolder text_fs ''1'' = Inl ErrNoValidImages"
  by (simp add: loadImagesFromFolder_def text_fs_def IsDir_def Ext_def)

lemma addSuccess_neq_addFailure: "addSuccess d st \<noteq> addFailure st"
proof
  assume "addSuccess d st = addFailure st"
  then have "successCount (addSuccess d st) = successCount (addFailure st)" by simp
  then show False by (simp add: addSuccess_def addFailure_def)
qed

subsection \<open>Every request is counted once\<close>

text \<open>
  Claim C1. In every state that the dispatch loop can reach, under any schedule and any
  answers of the server, \<^verbatim>\<open>successCount + failureCount\<close> is at most \<^verbatim>\<open>totalRequests\<close>;
  once \<^verbatim>\<open>wg.Wait()\<close> has returned it is exactly \<^verbatim>\<open>totalRequests\<close>. A call of
  \<^verbatim>\<open>makeRequest\<close> has the effect of exactly one of \<^verbatim>\<open>addSuccess\<close> and \<^verbatim>\<open>addFailure\<close>
  (the two differ), followed by \<^verbatim>\<open>wg.Done()\<close>. No run has more than
  \<open>6 * totalRequests + 3\<close> steps, and with at least one slot and the corpus of the loader
  (not empty, as many names as images) no run panics and every run can be continued until
  \<^verbatim>\<open>wg.Wait()\<close> has returned with the sum at \<^verbatim>\<open>totalRequests\<close>.
\<close>

theorem outcomes_counted_once:
  assumes "exec cfg evs init_state = Some s"
  shows "successCount (stats s) + failureCount (stats s) \<le> int (totalRequests cfg)
    \<and> (pc s = Joined \<longrightarrow>
         successCount (stats s) + failureCount (stats s) = int (totalRequests cfg))
    \<and> (makeRequest env (st, n) = (addSuccess (duration env) st, n - 1)
         \<or> makeRequest env (st, n) = (addFailure st, n - 1))
    \<and> addSuccess (duration env) st \<noteq> addFailure st
    \<and> length evs \<le> 6 * totalRequests cfg + 3
    \<and> (0 < concurrentRequests cfg \<and> images cfg \<noteq> []
          \<and> length (imageNames cfg) = length (images cfg) \<longrightarrow>
         panicked s = None
         \<and> (\<exists>evs' s'. exec cfg (evs @ evs') init_state = Some s' \<and> pc s' = Joined
               \<and> successCount (stats s') + failureCount (stats s')
                   = int (totalRequests cfg)))"
proof -
  from reachable_invs [OF assms] have inv: "counts_inv cfg s" by simp
  from count_status_total [of "goroutines s"] inv
  have le: "successCount (stats s) + failureCount (stats s) \<le> int (loop_i s)"
    and i: "loop_i s \<le> totalRequests cfg"
    by (auto simp: counts_inv_def split: main_pc.splits)
  from le i have 1: "successCount (stats s) + failureCount (stats s) \<le> int (totalRequests cfg)"
    by linarith
  have joined: "successCount (stats t) + failureCount (stats t) = int (totalRequests cfg)"
    if "counts_inv cfg t" and "pc t = Joined" for t
    using that count_status_total [of "goroutines t"] by (auto simp: counts_inv_def)
  from joined [OF inv]
  have 2: "pc s = Joined \<longrightarrow>
         successCount (stats s) + failureCount (stats s) = int (totalRequests cfg)"
    by simp
  from makeRequest_body_cases [of env st]
  have 3: "makeRequest env (st, n) = (addSuccess (duration env) st, n - 1)
         \<or> makeRequest env (st, n) = (addFailure st, n - 1)"
    by (auto simp: makeRequest_def wg_Done_def)
  from run_length [OF assms] have 4: "length evs \<le> 6 * totalRequests cfg + 3"
    by simp
  have 5: "panicked s = None
         \<and> (\<exists>evs' s'. exec cfg (evs @ evs') init_state = Some s' \<and> pc s' = Joined
               \<and> successCount (stats s') + failureCount (stats s')
                   = int (totalRequests cfg))"
    if c: "0 < concurrentRequests cfg" and ne: "images cfg \<noteq> []"
      and len: "length (imageNames cfg) = length (images cfg)"
  proof -
    have "panicked init_state = None" by (simp add: init_state_def)
    from no_panic_exec [OF ne len counts_inv_init this assms] have np: "panicked s = None" .
    from every_run_completes [OF assms c ne len] obtain evs' s'
      where e: "exec cfg (evs @ evs') init_state = Some s'" and j: "pc s' = Joined"
      by blast
    from reachable_invs [OF e] have "counts_inv cfg s'" by simp
    from joined [OF this j] e j np show ?thesis by blast
  qed
  from 1 2 3 4 5 addSuccess_neq_addFailure show ?thesis by blast
qed

theorem outcomes_counted_once_witness:
  "exec (photo_config 2 1 200) serial_schedule init_state = Some serial_end
   \<and> pc serial_end = Joined
   \<and> successCount (stats serial_end) + failureCount (stats serial_end) = 2
   \<and> totalRequests (photo_config 2 1 200) = 2
   \<and> 0 < concurrentRequests (photo_config 2 1 200)
   \<and> images (photo_config 2 1 200) \<noteq> []
   \<and> length (imageNames (photo_config 2 1 200)) = length (images (photo_config 2 1 200))
   \<and> panicked serial_end = None"
proof -
  have j: "pc serial_end = Joined"
    by (simp add: serial_end_def)
  have n: "totalRequests (photo_config 2 1 200) = 2"
    by (simp add: photo_config_def)
  have c: "0 < concurrentRequests (photo_config 2 1 200) \<and> images (photo_config 2 1 200) \<noteq> []
    \<and> length (imageNames (photo_config 2 1 200)) = length (images (photo_config 2 1 200))"
    by (simp add: photo_config_def)
  note t = outcomes_counted_once [OF serial_run, of "answer 200" newRequestStats 0]
  from t j n have "successCount (stats serial_end) + failureCount (stats serial_end) = 2"
    by simp
  moreover from t c have "panicked serial_end = None"
    by blast
  ultimately show ?thesis using serial_run j n c by simp
qed

subsection \<open>Classification of an outcome\<close>

text \<open>
  Claim C2. The outcome of a request is a function of what the libraries and the server
  answered, and of nothing else: it is a success, recorded with the measured duration, when
  no construction step failed and the response has status exactly 200; in every other case
  (a construction error, a transport error or timeout, any other status, the other 2xx
  codes included) it is a failure. The two outcomes are different updates. So status 200
  is a success, and 201, 204 and 500 are failures.
\<close>

theorem classification_by_status:
  "makeRequest_body env st =
     (if \<not> createFormFile_err env \<and> \<not> write_err env \<and> \<not> newRequest_err env
         \<and> do_result env = Inr 200
      then addSuccess (duration env) st else addFailure st)
   \<and> addSuccess (duration env) st \<noteq> addFailure st
   \<and> makeRequest_body (answer 200) st = addSuccess 7 st
   \<and> makeRequest_body (answer 201) st = addFailure st
   \<and> makeRequest_body (answer 204) st = addFailure st
   \<and> makeRequest_body (answer 500) st = addFailure st"
proof -
  have "makeRequest_body env st =
     (if \<not> createFormFile_err env \<and> \<not> write_err env \<and> \<not> newRequest_err env
         \<and> do_result env = Inr 200
      then addSuccess (duration env) st else addFailure st)"
    by (auto simp: makeRequest_body_def StatusOK_def split: sum.splits)
  moreover have "makeRequest_body (answer 200) st = addSuccess 7 st"
    "makeRequest_body (answer 201) st = addFailure st"
    "makeRequest_body (answer 204) st = addFailure st"
    "makeRequest_body (answer 500) st = addFailure st"
    by (simp_all add: makeRequest_body_def StatusOK_def answer_def)
  ultimately show ?thesis
    using addSuccess_neq_addFailure [of "duration env" st] by simp
qed

subsection \<open>The bound on the work units in flight\<close>

text \<open>
  Claim C3. In every state that the dispatch loop can reach, the number of work units
  between their send on \<^verbatim>\<open>semaphore\<close> and their receive from it is at most
  \<^verbatim>\<open>concurrentRequests\<close>; it is the number of elements in the channel.
\<close>

theorem permits_bounded:
  assumes "exec cfg evs init_state = Some s"
  shows "permits_held s \<le> concurrentRequests cfg \<and> permits_held s = semaphore s"
proof -
  from reachable_invs [OF assms] have inv: "counts_inv cfg s" by simp
  then have "permits_held s = semaphore s"
    by (simp add: counts_inv_def permits_held_def not_exited_count)
  with inv show ?thesis by (simp add: counts_inv_def)
qed

theorem permits_bounded_witness:
  "exec (photo_config 2 2 500) early_schedule init_state = Some early_end
   \<and> permits_held early_end = 2 \<and> concurrentRequests (photo_config 2 2 500) = 2"
proof -
  have c: "concurrentRequests (photo_config 2 2 500) = 2"
    by (simp add: photo_config_def)
  have "semaphore early_end = 2"
    by (simp add: early_end_def)
  with permits_bounded [OF early_run] have "permits_held early_end = 2"
    by simp
  with early_run c show ?thesis by simp
qed

subsection \<open>What \<^verbatim>\<open>wg.Wait()\<close> waits for\<close>

text \<open>
  \<^verbatim>\<open>wg.Done()\<close> is deferred inside \<^verbatim>\<open>makeRequest\<close>, so it runs before the
  \<^verbatim>\<open>time.Sleep\<close> and the receive from \<^verbatim>\<open>semaphore\<close> of the goroutine that called it.
  With two requests and two slots, \<^verbatim>\<open>wg.Wait()\<close> returns while both goroutines are in
  their pacing delay and both slots are still taken.
\<close>

theorem wait_returns_before_release:
  "exec (photo_config 2 2 500) early_schedule init_state = Some early_end
   \<and> pc early_end = Joined
   \<and> status (goroutines early_end ! 0) = Sleeping
   \<and> status (goroutines early_end ! 1) = Sleeping
   \<and> semaphore early_end = 2"
proof -
  have "pc early_end = Joined \<and> status (goroutines early_end ! 0) = Sleeping
    \<and> status (goroutines early_end ! 1) = Sleeping \<and> semaphore early_end = 2"
    by (simp add: early_end_def)
  with early_run show ?thesis by simp
qed

text \<open>
  Claim C4, as the code has it. When \<^verbatim>\<open>wg.Wait()\<close> has returned, every one of the
  \<^verbatim>\<open>totalRequests\<close> goroutines has been started, has recorded its outcome and has called
  \<^verbatim>\<open>wg.Done()\<close>, so the statistics read afterwards hold all \<^verbatim>\<open>totalRequests\<close> outcomes.
  Each goroutine is then in its pacing delay or has exited; those in the delay still hold
  their slot, and there are at most \<^verbatim>\<open>concurrentRequests\<close> of them.
\<close>

theorem wait_returns_after_outcomes:
  assumes "exec cfg evs init_state = Some s" and "pc s = Joined"
  shows "length (goroutines s) = totalRequests cfg
    \<and> (\<forall>g \<in> set (goroutines s). status g = Sleeping \<or> status g = Exited)
    \<and> successCount (stats s) + failureCount (stats s) = int (totalRequests cfg)
    \<and> permits_held s = count_status Sleeping (goroutines s)
    \<and> permits_held s \<le> concurrentRequests cfg"
proof -
  from reachable_invs [OF assms(1)] have inv: "counts_inv cfg s" by simp
  with assms(2) have z: "count_status InRequest (goroutines s) = 0"
      "count_status Recorded (goroutines s) = 0"
    and len: "length (goroutines s) = totalRequests cfg"
    by (simp_all add: counts_inv_def)
  have ph: "\<forall>g \<in> set (goroutines s). status g = Sleeping \<or> status g = Exited"
  proof
    fix g assume "g \<in> set (goroutines s)"
    with z have "status g \<noteq> InRequest" "status g \<noteq> Recorded"
      by (auto simp: count_status_zero)
    then show "status g = Sleeping \<or> status g = Exited" by (cases "status g") simp_all
  qed
  from inv z count_status_total [of "goroutines s"] len
  have sum: "successCount (stats s) + failureCount (stats s) = int (totalRequests cfg)"
    by (simp add: counts_inv_def)
  from z assms(2) have held: "permits_held s = count_status Sleeping (goroutines s)"
    by (simp add: permits_held_def not_exited_count)
  from inv z assms(2) held have "permits_held s \<le> concurrentRequests cfg"
    by (simp add: counts_inv_def)
  with len ph sum held show ?thesis by blast
qed

theorem wait_returns_after_outcomes_witness:
  "exec (photo_config 2 2 500) early_schedule init_state = Some early_end
   \<and> pc early_end = Joined
   \<and> length (goroutines early_end) = 2
   \<and> successCount (stats early_end) + failureCount (stats early_end) = 2
   \<and> permits_held early_end = 2"
proof -
  have j: "pc early_end = Joined"
    by (simp add: early_end_def)
  have n: "totalRequests (photo_config 2 2 500) = 2"
    by (simp add: photo_config_def)
  have p: "count_status Sleeping (goroutines early_end) = 2"
    by (simp add: early_end_def count_status_def)
  from wait_returns_after_outcomes [OF early_run j] n p
  have "length (goroutines early_end) = 2
    \<and> successCount (stats early_end) + failureCount (stats early_end) = 2
    \<and> permits_held early_end = 2"
    by simp
  with early_run j show ?thesis by simp
qed

subsection \<open>Selection from the corpus\<close>

text \<open>
  Claim C5. The goroutine of work item \<open>k\<close> is started with the request number \<open>k\<close>,
  which is less than \<^verbatim>\<open>totalRequests\<close>, and with the image and the name at index
  \<open>k mod len(images)\<close>; when \<^verbatim>\<open>wg.Wait()\<close> has returned there is one goroutine for every
  number below \<^verbatim>\<open>totalRequests\<close>. Over a corpus of three items the indices of seven
  requests are 0, 1, 2, 0, 1, 2, 0.
\<close>

theorem corpus_selection_cyclic:
  assumes "exec cfg evs init_state = Some s" and "k < length (goroutines s)"
  shows "requestNum (goroutines s ! k) = k
    \<and> k < totalRequests cfg
    \<and> imageData (goroutines s ! k) = images cfg ! (k mod length (images cfg))
    \<and> imageName (goroutines s ! k) = imageNames cfg ! (k mod length (images cfg))
    \<and> imageIndex k (images cfg) = k mod length (images cfg)
    \<and> (pc s = Joined \<longrightarrow> length (goroutines s) = totalRequests cfg)
    \<and> map (\<lambda>n. imageIndex n [a, b, c :: byte list]) [0 ..< 7] = [0, 1, 2, 0, 1, 2, 0]"
proof -
  from reachable_invs [OF assms(1)] have inv: "counts_inv cfg s" "args_inv cfg s" by simp_all
  from inv(1) assms(2) have "k < totalRequests cfg"
    by (auto simp: counts_inv_def split: main_pc.splits)
  moreover have "map (\<lambda>n. imageIndex n [a, b, c]) [0 ..< 7] = [0, 1, 2, 0, 1, 2, 0]"
    by (simp add: imageIndex_def upt_rec)
  moreover from inv(1) have "pc s = Joined \<longrightarrow> length (goroutines s) = totalRequests cfg"
    by (auto simp: counts_inv_def)
  ultimately show ?thesis using inv(2) assms(2)
    by (simp add: args_inv_def imageIndex_def)
qed

theorem corpus_selection_cyclic_witness:
  "exec cycle_config cycle_schedule init_state = Some cycle_end
   \<and> 4 < length (goroutines cycle_end)
   \<and> imageData (goroutines cycle_end ! 4) = images cycle_config ! 1
   \<and> imageName (goroutines cycle_end ! 4) = ''y.jpeg''
   \<and> map imageData (goroutines cycle_end) = [[10], [11], [12], [10], [11], [12], [10]]"
proof -
  have k: "4 < length (goroutines cycle_end)"
    by (simp add: cycle_end_def)
  have i: "images cycle_config ! (4 mod length (images cycle_config)) = images cycle_config ! 1"
    "imageNames cycle_config ! (4 mod length (images cycle_config)) = ''y.jpeg''"
    by (simp_all add: cycle_config_def)
  from corpus_selection_cyclic [OF cycle_run k, where a = "[10]" and b = "[11]" and c = "[12]"] i
  have a: "imageData (goroutines cycle_end ! 4) = images cycle_config ! 1"
    "imageName (goroutines cycle_end ! 4) = ''y.jpeg''"
    by simp_all
  have m: "map imageData (goroutines cycle_end) = [[10], [11], [12], [10], [11], [12], [10]]"
    by (simp add: cycle_end_def)
  from cycle_run k a m show ?thesis by simp
qed

subsection \<open>The mean request time when no request succeeded\<close>

text \<open>
  Claim C6. Two requests that both get status 500 leave \<^verbatim>\<open>successCount\<close> at 0; the
  division of line 226 then panics, and the run ends without the report.
\<close>

theorem mean_panics_without_success:
  "main_with 2 2 ''1'' (photo_world 500) early_schedule = Panic DivideByZero"
proof -
  note l = photo_load
  have c: "\<lparr>totalRequests = 2, concurrentRequests = 2, images = [[1, 2], [3]],
            imageNames = [''a.jpg'', ''d.jpeg''], responses = (\<lambda>n. answer 500)\<rparr>
           = photo_config 2 2 500"
    by (simp add: photo_config_def)
  have e: "exec \<lparr>totalRequests = 2, concurrentRequests = 2, images = [[1, 2], [3]],
            imageNames = [''a.jpg'', ''d.jpeg''], responses = (\<lambda>n. answer 500)\<rparr>
            early_schedule init_state = Some early_end"
    using early_run by (simp only: c)
  have m: "meanRequestTime (stats early_end) = Inl DivideByZero"
    by (simp add: early_end_def meanRequestTime_def Duration_div_def)
  have p: "panicked early_end = None" "pc early_end = Joined"
    by (simp_all add: early_end_def)
  show ?thesis
    by (simp add: main_with_def photo_world_def getContainerMemoryUsage_def docker_ok_def l e m p)
qed

subsection \<open>What the loader keeps\<close>

text \<open>
  The loader tests \<^verbatim>\<open>IsDir()\<close> only: a symbolic link to a readable image and a named
  pipe are not regular files, and both are loaded.
\<close>

theorem loader_takes_special_files:
  "ReadDir special_fs ''1'' =
     Inr [\<lparr>Name = ''a.jpg'', Type = Symlink\<rparr>, \<lparr>Name = ''b.png'', Type = NamedPipe\<rparr>]
   \<and> \<not> IsRegular \<lparr>Name = ''a.jpg'', Type = Symlink\<rparr>
   \<and> \<not> IsRegular \<lparr>Name = ''b.png'', Type = NamedPipe\<rparr>
   \<and> loadImagesFromFolder special_fs ''1'' = Inr ([[1, 2], [3]], [''a.jpg'', ''b.png''])"
  by (simp add: loadImagesFromFolder_def special_fs_def IsDir_def IsRegular_def Ext_def)

text \<open>
  Claim C7, as the code has it. The loader keeps exactly the entries that are not
  directories, whose extension is \<^verbatim>\<open>.jpg\<close>, \<^verbatim>\<open>.jpeg\<close> or \<^verbatim>\<open>.png\<close> in this spelling, and
  that \<^verbatim>\<open>os.ReadFile\<close> can read; an unreadable one is skipped. It returns an error exactly
  when the directory cannot be listed or no entry is kept, and \<^verbatim>\<open>main\<close> then stops before
  the dispatch loop, whatever the schedule. An upper-case extension is not accepted, and a
  directory is not read, whatever its name.
\<close>

theorem loader_keeps_loadable:
  "loadImagesFromFolder fs folderPath =
     (case ReadDir fs folderPath of
        Inl e \<Rightarrow> Inl ErrReadingDirectory
      | Inr fls \<Rightarrow>
          if filter (loadable fs folderPath) fls = [] then Inl ErrNoValidImages
          else Inr (map (content fs folderPath) (filter (loadable fs folderPath) fls),
                    map Name (filter (loadable fs folderPath) fls)))
   \<and> (isl (loadImagesFromFolder fs folderPath) \<longleftrightarrow>
        (case ReadDir fs folderPath of
           Inl e \<Rightarrow> True
         | Inr fls \<Rightarrow> filter (loadable fs folderPath) fls = []))
   \<and> (loadImagesFromFolder (files w) imageFolder = Inl err \<longrightarrow>
        main_with nTotal nConcurrent imageFolder w sched =
          (case getContainerMemoryUsage (docker_initial w) of
             Inl e \<Rightarrow> AbortInitialMemory e
           | Inr m \<Rightarrow> AbortLoadImages err))
   \<and> \<not> loadable fs folderPath \<lparr>Name = ''B.JPG'', Type = Regular\<rparr>
   \<and> \<not> loadable fs folderPath \<lparr>Name = ''album.jpg'', Type = Directory\<rparr>"
proof -
  have 1: "isl (loadImagesFromFolder fs folderPath) \<longleftrightarrow>
        (case ReadDir fs folderPath of
           Inl e \<Rightarrow> True
         | Inr fls \<Rightarrow> filter (loadable fs folderPath) fls = [])"
    by (simp add: loadImagesFromFolder_eq split: sum.splits)
  have 2: "loadImagesFromFolder (files w) imageFolder = Inl err \<longrightarrow>
        main_with nTotal nConcurrent imageFolder w sched =
          (case getContainerMemoryUsage (docker_initial w) of
             Inl e \<Rightarrow> AbortInitialMemory e
           | Inr m \<Rightarrow> AbortLoadImages err)"
    by (simp add: main_with_def split: sum.splits)
  have 3: "\<not> loadable fs folderPath \<lparr>Name = ''B.JPG'', Type = Regular\<rparr>"
    by (simp add: loadable_def Ext_def)
  have 4: "\<not> loadable fs folderPath \<lparr>Name = ''album.jpg'', Type = Directory\<rparr>"
    by (simp add: loadable_def IsDir_def)
  from loadImagesFromFolder_eq [of fs folderPath] 1 2 3 4 show ?thesis by blast
qed

theorem loader_keeps_loadable_witness:
  "loadImagesFromFolder (files text_world) ''1'' = Inl ErrNoValidImages
   \<and> main text_world early_schedule = AbortLoadImages ErrNoValidImages"
proof -
  have l: "loadImagesFromFolder (files text_world) ''1'' = Inl ErrNoValidImages"
    by (simp add: text_world_def text_load)
  have d: "getContainerMemoryUsage (docker_initial text_world) = Inr 5000"
    by (simp add: text_world_def getContainerMemoryUsage_def docker_ok_def)
  from loader_keeps_loadable [of "files text_world" "''1''" text_world "''1''"
      ErrNoValidImages 1000 10 early_schedule] l d
  have "main_with 1000 10 ''1'' text_world early_schedule = AbortLoadImages ErrNoValidImages"
    by simp
  with l show ?thesis by (simp add: main_def)
qed

subsection \<open>The frame of a failed request\<close>

text \<open>
  Claim C8. On every failure path of \<^verbatim>\<open>makeRequest\<close> (one of the three construction
  errors, an error of \<^verbatim>\<open>client.Do\<close>, a status other than 200) the statistics change by
  \<^verbatim>\<open>addFailure\<close> alone: \<^verbatim>\<open>failureCount\<close> grows by one, \<^verbatim>\<open>successCount\<close> and
  \<^verbatim>\<open>totalTime\<close> keep their values.
\<close>

theorem failure_changes_failureCount_only:
  assumes "createFormFile_err env \<or> write_err env \<or> newRequest_err env
     \<or> (\<exists>err. do_result env = Inl err)
     \<or> (\<exists>code. do_result env = Inr code \<and> code \<noteq> 200)"
  shows "makeRequest_body env st = addFailure st
    \<and> successCount (makeRequest_body env st) = successCount st
    \<and> totalTime (makeRequest_body env st) = totalTime st
    \<and> failureCount (makeRequest_body env st) = failureCount st + 1
    \<and> successCount (addFailure st) = successCount st
    \<and> totalTime (addFailure st) = totalTime st"
proof -
  from assms have "makeRequest_body env st = addFailure st"
    by (auto simp: makeRequest_body_def StatusOK_def split: sum.splits)
  then show ?thesis by (simp add: addFailure_def)
qed

theorem failure_changes_failureCount_only_witness:
  "do_result (answer 204) = Inr 204
   \<and> makeRequest_body (answer 204) \<lparr>successCount = 3, failureCount = 1, totalTime = 21\<rparr>
       = \<lparr>successCount = 3, failureCount = 2, totalTime = 21\<rparr>"
proof -
  have d: "do_result (answer 204) = Inr 204"
    by (simp add: answer_def)
  then have "\<exists>code. do_result (answer 204) = Inr code \<and> code \<noteq> 200"
    by simp
  then have "makeRequest_body (answer 204) \<lparr>successCount = 3, failureCount = 1, totalTime = 21\<rparr>
       = addFailure \<lparr>successCount = 3, failureCount = 1, totalTime = 21\<rparr>"
    using failure_changes_failureCount_only [of "answer 204"] by blast
  with d show ?thesis by (simp add: addFailure_def)
qed

subsection \<open>The two slices of the loader\<close>

text \<open>
  Claim C9. When \<^verbatim>\<open>loadImagesFromFolder\<close> returns without error, its two slices have the
  same length, the image at each index is what \<^verbatim>\<open>os.ReadFile\<close> returns for the name at
  that index joined to the folder, and both slices follow the order of the directory
  listing: they are the kept entries, in the order of \<^verbatim>\<open>os.ReadDir\<close>.
\<close>

theorem loader_slices_aligned:
  assumes "loadImagesFromFolder fs folderPath = Inr (imgs, names)"
  shows "length imgs = length names
    \<and> (\<forall>i < length names. ReadFile fs (Join fs folderPath (names ! i)) = Inr (imgs ! i))
    \<and> (\<exists>fls. ReadDir fs folderPath = Inr fls
          \<and> names = map Name (filter (loadable fs folderPath) fls)
          \<and> imgs = map (content fs folderPath) (filter (loadable fs folderPath) fls)
          \<and> subseq names (map Name fls))"
proof -
  from assms obtain fls where rd: "ReadDir fs folderPath = Inr fls"
    by (cases "ReadDir fs folderPath") (simp_all add: loadImagesFromFolder_def)
  let ?kept = "filter (loadable fs folderPath) fls"
  from assms rd have n: "names = map Name ?kept" and i: "imgs = map (content fs folderPath) ?kept"
    by (simp_all add: loadImagesFromFolder_eq split: if_splits)
  have len: "length imgs = length names" by (simp add: n i)
  have rf: "\<forall>j < length names. ReadFile fs (Join fs folderPath (names ! j)) = Inr (imgs ! j)"
  proof (intro allI impI)
    fix j assume "j < length names"
    then have j: "j < length ?kept" by (simp add: n)
    then have "?kept ! j \<in> set ?kept" by (rule nth_mem)
    then have "loadable fs folderPath (?kept ! j)" by simp
    then obtain d where "ReadFile fs (Join fs folderPath (Name (?kept ! j))) = Inr d"
      by (cases "ReadFile fs (Join fs folderPath (Name (?kept ! j)))") (simp_all add: loadable_def)
    with j show "ReadFile fs (Join fs folderPath (names ! j)) = Inr (imgs ! j)"
      by (simp add: n i content_def)
  qed
  have "subseq ?kept fls" by simp
  then have "subseq names (map Name fls)" unfolding n by (rule subseq_map)
  with rd n i len rf show ?thesis by blast
qed

theorem loader_slices_aligned_witness:
  "loadImagesFromFolder photo_fs ''1'' = Inr ([[1, 2], [3]], [''a.jpg'', ''d.jpeg''])
   \<and> ReadFile photo_fs (Join photo_fs ''1'' ''d.jpeg'') = Inr [3]
   \<and> ReadFile photo_fs (Join photo_fs ''1'' ([''a.jpg'', ''d.jpeg''] ! 0)) = Inr [1, 2]"
proof -
  from loader_slices_aligned [OF photo_load]
  have "\<forall>i < length [''a.jpg'', ''d.jpeg''].
      ReadFile photo_fs (Join photo_fs ''1'' ([''a.jpg'', ''d.jpeg''] ! i))
        = Inr ([[1, 2], [3]] ! i)"
    by blast
  then have "0 < length [''a.jpg'', ''d.jpeg''] \<longrightarrow>
      ReadFile photo_fs (Join photo_fs ''1'' ([''a.jpg'', ''d.jpeg''] ! 0))
        = Inr ([[1, 2], [3]] ! 0)" by (rule spec)
  then have "ReadFile photo_fs (Join photo_fs ''1'' ([''a.jpg'', ''d.jpeg''] ! 0)) = Inr [1, 2]"
    by simp
  moreover have "ReadFile photo_fs (Join photo_fs ''1'' ''d.jpeg'') = Inr [3]"
    by (simp add: photo_fs_def)
  ultimately show ?thesis using photo_load by simp
qed

subsection \<open>The memory difference\<close>

lemma main_with_reports:
  assumes "getContainerMemoryUsage (docker_initial w) = Inr mi"
    and "loadImagesFromFolder (files w) imageFolder = Inr (imgs, names)"
    and "exec \<lparr>totalRequests = nTotal, concurrentRequests = nConcurrent,
                images = imgs, imageNames = names, responses = server w\<rparr>
               sched init_state = Some s"
    and "panicked s = None" and "pc s = Joined"
    and "getContainerMemoryUsage (docker_final w) = Inr mf"
    and "meanRequestTime (stats s) = Inr mean"
  shows "main_with nTotal nConcurrent imageFolder w sched =
          Report \<lparr>report_totalRequests = nTotal,
                  report_successCount = successCount (stats s),
                  report_failureCount = failureCount (stats s),
                  report_meanRequestTime = mean,
                  report_initialMemory = mi, report_finalMemory = mf,
                  report_memoryDifference = mf - mi\<rparr>"
  using assms by (simp add: main_with_def memoryDifference_def)

lemma serial_main:
  "main_with 2 1 ''1'' (photo_world 200) serial_schedule = Report serial_report"
proof -
  have i: "getContainerMemoryUsage (docker_initial (photo_world 200)) = Inr 5000"
    and f: "getContainerMemoryUsage (docker_final (photo_world 200)) = Inr 3000"
    by (simp_all add: photo_world_def getContainerMemoryUsage_def docker_ok_def)
  have l: "loadImagesFromFolder (files (photo_world 200)) ''1''
      = Inr ([[1, 2], [3]], [''a.jpg'', ''d.jpeg''])"
    by (simp add: photo_world_def photo_load)
  have c: "\<lparr>totalRequests = 2, concurrentRequests = 1, images = [[1, 2], [3]],
            imageNames = [''a.jpg'', ''d.jpeg''], responses = server (photo_world 200)\<rparr>
           = photo_config 2 1 200"
    by (simp add: photo_config_def photo_world_def)
  have e: "exec \<lparr>totalRequests = 2, concurrentRequests = 1, images = [[1, 2], [3]],
            imageNames = [''a.jpg'', ''d.jpeg''], responses = server (photo_world 200)\<rparr>
            serial_schedule init_state = Some serial_end"
    using serial_run by (simp only: c)
  have m: "meanRequestTime (stats serial_end) = Inr 7"
    by (simp add: serial_end_def meanRequestTime_def Duration_div_def signed_divide_int_def)
  have p: "panicked serial_end = None" "pc serial_end = Joined"
    by (simp_all add: serial_end_def)
  from main_with_reports [OF i l e p f m] show ?thesis
    by (simp add: serial_end_def serial_report_def)
qed

lemma main_with_Report:
  assumes "main_with nTotal nConcurrent imageFolder w sched = Report r"
  shows "getContainerMemoryUsage (docker_initial w) = Inr (report_initialMemory r)
    \<and> getContainerMemoryUsage (docker_final w) = Inr (report_finalMemory r)
    \<and> report_memoryDifference r = report_finalMemory r - report_initialMemory r"
  using assms
  by (auto simp: main_with_def memoryDifference_def
           split: sum.splits option.splits if_splits prod.splits)

lemma getContainerMemoryUsage_Inr:
  "getContainerMemoryUsage d = Inr m \<Longrightarrow> m = memoryUsage d"
  by (auto simp: getContainerMemoryUsage_def split: if_splits)

text \<open>
  Claim C10. The difference of line 219 is a subtraction on \<^verbatim>\<open>uint64\<close>: adding the
  initial sample to it gives back the final one modulo \<open>2 ^ 64\<close>, and when the final sample
  is the smaller one the difference is \<open>2 ^ 64\<close> minus the decrease, a value above the
  final sample, never a negative one. Whenever \<^verbatim>\<open>main\<close> prints its report, the two memory
  values in it are the two samples that the Docker daemon returned and the difference is
  their \<^verbatim>\<open>uint64\<close> difference, wrapped when the second sample is the smaller one.
  \<^verbatim>\<open>main\<close> does print the report when both samples and the loader succeed, the
  dispatch loop has passed \<^verbatim>\<open>wg.Wait()\<close> without a panic and the mean is defined; with
  samples of 5000 and 3000 bytes the reported difference is 18446744073709549616.
\<close>

theorem memoryDifference_wraps:
  "memoryDifference finalMemory initialMemory + initialMemory = finalMemory
   \<and> (finalMemory < initialMemory \<longrightarrow>
        unat (memoryDifference finalMemory initialMemory)
          = 2 ^ 64 - (unat initialMemory - unat finalMemory)
        \<and> unat finalMemory < unat (memoryDifference finalMemory initialMemory))
   \<and> (main_with nTotal nConcurrent imageFolder w sched = Report r \<longrightarrow>
        getContainerMemoryUsage (docker_initial w) = Inr (report_initialMemory r)
        \<and> report_initialMemory r = memoryUsage (docker_initial w)
        \<and> getContainerMemoryUsage (docker_final w) = Inr (report_finalMemory r)
        \<and> report_finalMemory r = memoryUsage (docker_final w)
        \<and> report_memoryDifference r
            = memoryDifference (report_finalMemory r) (report_initialMemory r)
        \<and> report_memoryDifference r
            = memoryUsage (docker_final w) - memoryUsage (docker_initial w)
        \<and> (memoryUsage (docker_final w) < memoryUsage (docker_initial w) \<longrightarrow>
             unat (report_memoryDifference r)
               = 2 ^ 64 - (unat (memoryUsage (docker_initial w))
                           - unat (memoryUsage (docker_final w)))))
   \<and> (getContainerMemoryUsage (docker_initial w) = Inr mi
        \<and> loadImagesFromFolder (files w) imageFolder = Inr (imgs, names)
        \<and> exec \<lparr>totalRequests = nTotal, concurrentRequests = nConcurrent,
                  images = imgs, imageNames = names, responses = server w\<rparr>
                 sched init_state = Some s
        \<and> panicked s = None \<and> pc s = Joined
        \<and> getContainerMemoryUsage (docker_final w) = Inr mf
        \<and> meanRequestTime (stats s) = Inr mean \<longrightarrow>
        main_with nTotal nConcurrent imageFolder w sched =
          Report \<lparr>report_totalRequests = nTotal,
                  report_successCount = successCount (stats s),
                  report_failureCount = failureCount (stats s),
                  report_meanRequestTime = mean,
                  report_initialMemory = mi, report_finalMemory = mf,
                  report_memoryDifference = mf - mi\<rparr>)
   \<and> main_with 2 1 ''1'' (photo_world 200) serial_schedule = Report serial_report
   \<and> report_memoryDifference serial_report = 18446744073709549616"
proof -
  have 1: "memoryDifference finalMemory initialMemory + initialMemory = finalMemory"
    by (simp add: memoryDifference_def)
  have wrap: "unat (memoryDifference f i) = 2 ^ 64 - (unat i - unat f)
        \<and> unat f < unat (memoryDifference f i)"
    if lt: "f < i" for f i :: uint64
  proof -
    from lt have l: "unat f < unat i" by (simp add: word_less_nat_alt)
    have b: "unat i < 2 ^ 64" using unsigned_less [of i, where ?'a = nat] by simp
    from l have "unat (f - i) = unat f + 2 ^ 64 - unat i"
      by (simp add: unat_sub_if_size word_size)
    with l b show ?thesis unfolding memoryDifference_def by linarith
  qed
  have 3: "getContainerMemoryUsage (docker_initial w) = Inr (report_initialMemory r)
        \<and> report_initialMemory r = memoryUsage (docker_initial w)
        \<and> getContainerMemoryUsage (docker_final w) = Inr (report_finalMemory r)
        \<and> report_finalMemory r = memoryUsage (docker_final w)
        \<and> report_memoryDifference r
            = memoryDifference (report_finalMemory r) (report_initialMemory r)
        \<and> report_memoryDifference r
            = memoryUsage (docker_final w) - memoryUsage (docker_initial w)
        \<and> (memoryUsage (docker_final w) < memoryUsage (docker_initial w) \<longrightarrow>
             unat (report_memoryDifference r)
               = 2 ^ 64 - (unat (memoryUsage (docker_initial w))
                           - unat (memoryUsage (docker_final w))))"
    if rep: "main_with nTotal nConcurrent imageFolder w sched = Report r"
  proof -
    note f = main_with_Report [OF rep]
    from f have i: "report_initialMemory r = memoryUsage (docker_initial w)"
      and e: "report_finalMemory r = memoryUsage (docker_final w)"
      by (auto dest: getContainerMemoryUsage_Inr)
    from f have d: "report_memoryDifference r
        = memoryDifference (report_finalMemory r) (report_initialMemory r)"
      by (simp add: memoryDifference_def)
    from wrap [of "report_finalMemory r" "report_initialMemory r"] d i e
    have "memoryUsage (docker_final w) < memoryUsage (docker_initial w) \<longrightarrow>
             unat (report_memoryDifference r)
               = 2 ^ 64 - (unat (memoryUsage (docker_initial w))
                           - unat (memoryUsage (docker_final w)))"
      by simp
    with f i e d show ?thesis by (simp add: memoryDifference_def)
  qed
  have 4: "getContainerMemoryUsage (docker_initial w) = Inr mi
        \<and> loadImagesFromFolder (files w) imageFolder = Inr (imgs, names)
        \<and> exec \<lparr>totalRequests = nTotal, concurrentRequests = nConcurrent,
                  images = imgs, imageNames = names, responses = server w\<rparr>
                 sched init_state = Some s
        \<and> panicked s = None \<and> pc s = Joined
        \<and> getContainerMemoryUsage (docker_final w) = Inr mf
        \<and> meanRequestTime (stats s) = Inr mean \<longrightarrow>
        main_with nTotal nConcurrent imageFolder w sched =
          Report \<lparr>report_totalRequests = nTotal,
                  report_successCount = successCount (stats s),
                  report_failureCount = failureCount (stats s),
                  report_meanRequestTime = mean,
                  report_initialMemory = mi, report_finalMemory = mf,
                  report_memoryDifference = mf - mi\<rparr>"
    using main_with_reports [of w mi imageFolder imgs names nTotal nConcurrent sched s mf mean]
    by blast
  have 5: "report_memoryDifference serial_report = 18446744073709549616"
    by (simp add: serial_report_def)
  from 1 wrap [of finalMemory initialMemory] 3 4 serial_main 5 show ?thesis by blast
qed

theorem memoryDifference_wraps_witness:
  "(3000 :: uint64) < 5000
   \<and> unat (memoryDifference 3000 5000) = 18446744073709549616
   \<and> main_with 2 1 ''1'' (photo_world 200) serial_schedule = Report serial_report
   \<and> memoryUsage (docker_initial (photo_world 200)) = 5000
   \<and> memoryUsage (docker_final (photo_world 200)) = 3000
   \<and> report_initialMemory serial_report = 5000
   \<and> report_finalMemory serial_report = 3000
   \<and> unat (report_memoryDifference serial_report) = 18446744073709549616"
proof -
  note t = memoryDifference_wraps [of 3000 5000 2 1 "''1''" "photo_world 200" serial_schedule
      serial_report]
  have l: "(3000 :: uint64) < 5000" by simp
  have m: "memoryUsage (docker_initial (photo_world 200)) = 5000"
    "memoryUsage (docker_final (photo_world 200)) = 3000"
    by (simp_all add: photo_world_def docker_ok_def)
  from t have r: "main_with 2 1 ''1'' (photo_world 200) serial_schedule = Report serial_report"
    by blast
  from t l
  have "unat (memoryDifference 3000 5000) = 2 ^ 64 - (unat (5000 :: uint64) - unat (3000 :: uint64))"
    by blast
  then have u: "unat (memoryDifference 3000 5000) = 18446744073709549616" by simp
  from t r have f: "report_initialMemory serial_report = memoryUsage (docker_initial (photo_world 200))"
    "report_finalMemory serial_report = memoryUsage (docker_final (photo_world 200))"
    by blast+
  from t r m l
  have "unat (report_memoryDifference serial_report)
      = 2 ^ 64 - (unat (5000 :: uint64) - unat (3000 :: uint64))"
    by simp
  then have d: "unat (report_memoryDifference serial_report) = 18446744073709549616" by simp
  from l u r m f d show ?thesis by simp
qed

end
